theory Spec2Isabelle
  imports Main
begin

section \<open>Strings\<close>

text \<open>
  The program is JavaScript (\<^verbatim>\<open>linked-list-concordance.js\<close>). Its strings are modelled
  as \<^typ>\<open>string\<close>, one \<^typ>\<open>char\<close> per code unit in the range U+0000..U+00FF. On that
  range \<^verbatim>\<open>String.prototype.toLowerCase\<close> works character by character: it moves
  \<^verbatim>\<open>A-Z\<close> and U+00C0..U+00DE (without the multiplication sign U+00D7) up by 32 and
  leaves every other character alone.
\<close>

definition toLowerCase_char :: "char \<Rightarrow> char" where
  "toLowerCase_char c =
     (let n = (of_char c :: nat)
      in if (65 \<le> n \<and> n \<le> 90) \<or> (192 \<le> n \<and> n \<le> 222 \<and> n \<noteq> 215)
         then char_of (n + 32) else c)"

definition toLowerCase :: "string \<Rightarrow> string" where
  "toLowerCase s = map toLowerCase_char s"

text \<open>
  The character class \<^verbatim>\<open>[\s.,';]\<close> of line 260. On the modelled range \<^verbatim>\<open>\s\<close> is
  tab, line feed, vertical tab, form feed, carriage return, space and the no-break space;
  the other four are full stop (46), comma (44), apostrophe (39) and semicolon (59).
\<close>

definition is_delimiter :: "char \<Rightarrow> bool" where
  "is_delimiter c =
     ((of_char c :: nat) = 9 \<or> (of_char c :: nat) = 10 \<or> (of_char c :: nat) = 11 \<or>
      (of_char c :: nat) = 12 \<or> (of_char c :: nat) = 13 \<or> (of_char c :: nat) = 32 \<or>
      (of_char c :: nat) = 160 \<or> (of_char c :: nat) = 46 \<or> (of_char c :: nat) = 44 \<or>
      (of_char c :: nat) = 39 \<or> (of_char c :: nat) = 59)"

text \<open>
  \<^verbatim>\<open>sentence.split(/[\s.,';]/)\<close>: every delimiter occurrence ends the current token
  and starts a new one, so \<open>n\<close> delimiters give \<open>n + 1\<close> tokens, empty ones included
  (the empty sentence gives the one empty token).
\<close>

fun split_loop :: "string \<Rightarrow> string \<Rightarrow> string list" where
  "split_loop tok [] = [tok]"
| "split_loop tok (c # cs) =
     (if is_delimiter c then tok # split_loop [] cs else split_loop (tok @ [c]) cs)"

definition split_sentence :: "string \<Rightarrow> string list" where
  "split_sentence sentence = split_loop [] sentence"

text \<open>
  \<^verbatim>\<open>[...new Set(tokens)]\<close>: a Set keeps the first occurrence of each value, in
  insertion order. Tokens are compared as they are, before any lower-casing.
\<close>

definition spread_Set :: "'a list \<Rightarrow> 'a list" where
  "spread_Set xs = fold (\<lambda>x seen. if x \<in> set seen then seen else seen @ [x]) xs []"

section \<open>The concordance\<close>

text \<open>
  The body of the \<^verbatim>\<open>forEach\<close> callback (lines 263-285): lower-case the token, skip
  the empty word, and append the sentence index to the word's array, or start the array.
  The \<^verbatim>\<open>Map\<close> (and the object made from it) is a partial function from words to
  index arrays.
\<close>

definition add_word :: "nat \<Rightarrow> string \<Rightarrow> (string \<rightharpoonup> nat list) \<Rightarrow> (string \<rightharpoonup> nat list)" where
  "add_word index token m =
     (let word = toLowerCase token
      in if word \<noteq> []
         then (case m word of
                 Some indices \<Rightarrow> m(word \<mapsto> indices @ [index])
               | None \<Rightarrow> m(word \<mapsto> [index]))
         else m)"

definition add_sentence :: "nat \<times> string \<Rightarrow> (string \<rightharpoonup> nat list) \<Rightarrow> (string \<rightharpoonup> nat list)" where
  "add_sentence entry m =
     (case entry of (index, sentence) \<Rightarrow>
        fold (add_word index) (spread_Set (split_sentence sentence)) m)"

definition concordance :: "string list \<Rightarrow> (string \<rightharpoonup> nat list)" where
  "concordance data = fold add_sentence (enumerate 0 data) Map.empty"

section \<open>The linked list\<close>

text \<open>
  \<^verbatim>\<open>class Node\<close> has a value and a next node, \<^verbatim>\<open>null\<close> being \<open>None\<close>;
  \<^verbatim>\<open>class LinkedList\<close> has the one field \<^verbatim>\<open>head\<close>.
\<close>

datatype 'a node = Node (node_value: 'a) (node_next: "'a node option")

record 'a LinkedList =
  head :: "'a node option"

datatype error = Error string | TypeError

definition insertAtHead :: "'a \<Rightarrow> 'a LinkedList \<Rightarrow> 'a LinkedList" where
  "insertAtHead v this = this\<lparr>head := Some (Node v (head this))\<rparr>"

text \<open>
  The constructor (lines 12-18). \<^verbatim>\<open>values.reverse()\<close> reverses the caller's array in
  place, so the constructor returns the new list together with the argument as it is
  left behind. \<open>None\<close> is an argument that is missing or not an array.
\<close>

definition new_LinkedList :: "'a list option \<Rightarrow> 'a LinkedList \<times> 'a list option" where
  "new_LinkedList arg =
     (case arg of
        Some vs \<Rightarrow> (let reversed = rev vs
                    in (fold insertAtHead reversed \<lparr>head = None\<rparr>, Some reversed))
      | None \<Rightarrow> (\<lparr>head = None\<rparr>, None))"

fun length_loop :: "'a node option \<Rightarrow> nat \<Rightarrow> nat" where
  "length_loop None result = result"
| "length_loop (Some (Node v nx)) result = length_loop nx (result + 1)"

definition length_ll :: "'a LinkedList \<Rightarrow> nat" where
  "length_ll this = length_loop (head this) 0"

text \<open>
  A reference to a node, as \<^verbatim>\<open>findWithPrevious\<close> returns it, is modelled by the
  node's position in the chain from \<^verbatim>\<open>head\<close> (its identity: nodes are reached only
  through \<^verbatim>\<open>head\<close> and \<^verbatim>\<open>next\<close>) paired with the node found there (what reading
  its fields gives). \<open>None\<close> is \<^verbatim>\<open>null\<close>.
\<close>

type_synonym 'a node_ref = "(nat \<times> 'a node) option"

type_synonym 'a matcher = "'a node \<Rightarrow> nat \<Rightarrow> 'a LinkedList \<Rightarrow> bool"

fun findWithPrevious_loop ::
  "'a matcher \<Rightarrow> 'a LinkedList \<Rightarrow> nat \<Rightarrow> 'a node_ref \<Rightarrow> 'a node option \<Rightarrow>
   'a node_ref \<times> 'a node_ref" where
  "findWithPrevious_loop isMatch this index previous None = (None, None)"
| "findWithPrevious_loop isMatch this index previous (Some (Node v nx)) =
     (if isMatch (Node v nx) index this
      then (Some (index, Node v nx), previous)
      else findWithPrevious_loop isMatch this (index + 1) (Some (index, Node v nx)) nx)"

definition findWithPrevious :: "'a matcher \<Rightarrow> 'a LinkedList \<Rightarrow> 'a node_ref \<times> 'a node_ref" where
  "findWithPrevious isMatch this = findWithPrevious_loop isMatch this 0 None (head this)"

definition find_ll :: "'a matcher \<Rightarrow> 'a LinkedList \<Rightarrow> 'a node_ref" where
  "find_ll isMatch this = fst (findWithPrevious isMatch this)"

text \<open>
  The assignment \<^verbatim>\<open>n.next = x\<close> to the node \<open>n\<close> at position \<open>p\<close> of a chain: the
  chain is rebuilt down to that node, and nothing else changes.
\<close>

fun set_next :: "nat \<Rightarrow> 'a node option \<Rightarrow> 'a node option \<Rightarrow> 'a node option" where
  "set_next p x None = None"
| "set_next 0 x (Some (Node v nx)) = Some (Node v x)"
| "set_next (Suc p) x (Some (Node v nx)) = Some (Node v (set_next p x nx))"

text \<open>
  \<^verbatim>\<open>insert\<close> and \<^verbatim>\<open>remove\<close> change the list in place and may throw. Each returns
  the exception thrown (\<open>None\<close> when the call returns, and then it returns \<^verbatim>\<open>this\<close>)
  together with the list as the call leaves it.

  The default matcher of \<^verbatim>\<open>insert\<close> is \<^verbatim>\<open>(node, index) => index === this.length - 1\<close>.
\<close>

definition insert_default_isMatch :: "'a LinkedList \<Rightarrow> 'a matcher" where
  "insert_default_isMatch this = (\<lambda>node index l. int index = int (length_ll this) - 1)"

definition insert_ll :: "'a \<Rightarrow> 'a matcher \<Rightarrow> 'a LinkedList \<Rightarrow> error option \<times> 'a LinkedList" where
  "insert_ll v isMatch this =
     (case head this of
        Some h \<Rightarrow>
          (case find_ll isMatch this of
             None \<Rightarrow> (Some (Error ''No match found.''), this)
           | Some (p, previousNode) \<Rightarrow>
               (None, this\<lparr>head := set_next p (Some (Node v (node_next previousNode))) (head this)\<rparr>))
      | None \<Rightarrow> (None, insertAtHead v this))"

text \<open>
  \<^verbatim>\<open>this.head === matchedNode\<close> compares references: both \<^verbatim>\<open>null\<close>, or the matched
  node is the one at position 0.
\<close>

definition head_is :: "'a LinkedList \<Rightarrow> 'a node_ref \<Rightarrow> bool" where
  "head_is this r = (case r of None \<Rightarrow> head this = None | Some (p, n) \<Rightarrow> p = 0)"

text \<open>
  \<^verbatim>\<open>remove\<close> (lines 131-140) tests nothing for \<^verbatim>\<open>null\<close>: \<^verbatim>\<open>this.head.next\<close> with
  a \<^verbatim>\<open>null\<close> head, and \<^verbatim>\<open>previousNode.next = matchedNode.next\<close> with a \<^verbatim>\<open>null\<close>
  node, throw a TypeError before anything is assigned.
\<close>

definition remove_ll :: "'a matcher \<Rightarrow> 'a LinkedList \<Rightarrow> error option \<times> 'a LinkedList" where
  "remove_ll isMatch this =
     (case findWithPrevious isMatch this of (matchedNode, previousNode) \<Rightarrow>
        if head_is this matchedNode
        then (case head this of
                None \<Rightarrow> (Some TypeError, this)
              | Some h \<Rightarrow> (None, this\<lparr>head := node_next h\<rparr>))
        else (case previousNode of
                None \<Rightarrow> (Some TypeError, this)
              | Some (pp, pn) \<Rightarrow>
                  (case matchedNode of
                     None \<Rightarrow> (Some TypeError, this)
                   | Some (mp, mn) \<Rightarrow>
                       (None, this\<lparr>head := set_next pp (node_next mn) (head this)\<rparr>))))"

fun asArray_loop :: "'a node option \<Rightarrow> 'a list \<Rightarrow> 'a list" where
  "asArray_loop None vs = vs"
| "asArray_loop (Some (Node v nx)) vs = asArray_loop nx (vs @ [v])"

definition asArray :: "'a LinkedList \<Rightarrow> 'a list" where
  "asArray this = asArray_loop (head this) []"

section \<open>Searching\<close>

text \<open>
  \<^verbatim>\<open>data[sentenceIndex]\<close> is \<^verbatim>\<open>undefined\<close> out of range; \<open>None\<close> stands for
  \<^verbatim>\<open>undefined\<close>, so the result array holds \<^typ>\<open>string option\<close>.
\<close>

definition data_at :: "string list \<Rightarrow> nat \<Rightarrow> string option" where
  "data_at data i = (if i < length data then Some (data ! i) else None)"

text \<open>The \<^verbatim>\<open>for\<close> loop of lines 329-345 over the index array of the key.\<close>

definition push_sentences :: "nat list \<Rightarrow> string list \<Rightarrow> string option list \<Rightarrow> string option list" where
  "push_sentences indices data result =
     fold (\<lambda>sentenceIndex result.
             (let sentence = data_at data sentenceIndex
              in if sentence \<in> set result then result else result @ [sentence]))
          indices result"

text \<open>
  The \<^verbatim>\<open>while\<close> loop of lines 323-353. \<^verbatim>\<open>lowerCasedKey\<close> is an argument that no
  iteration changes: line 320 assigns it once, before the loop, from the head node.
\<close>

fun searchLines_loop ::
  "string \<Rightarrow> (string \<rightharpoonup> nat list) \<Rightarrow> string list \<Rightarrow> string node option \<Rightarrow>
   string option list \<Rightarrow> string option list" where
  "searchLines_loop lowerCasedKey conc data None result = result"
| "searchLines_loop lowerCasedKey conc data (Some (Node v nx)) result =
     (case conc lowerCasedKey of
        Some indices \<Rightarrow>
          searchLines_loop lowerCasedKey conc data nx (push_sentences indices data result)
      | None \<Rightarrow> [])"

definition searchLines ::
  "string LinkedList \<Rightarrow> (string \<rightharpoonup> nat list) \<Rightarrow> string list \<Rightarrow> string option list" where
  "searchLines words conc data =
     (case head words of
        None \<Rightarrow> []
      | Some word \<Rightarrow>
          searchLines_loop (toLowerCase (node_value word)) conc data (head words) [])"

section \<open>Notions used to state the properties\<close>

text \<open>
  The nodes of a list, front to back: the node at \<^verbatim>\<open>head\<close>, then the one its
  \<^verbatim>\<open>next\<close> points to, and so on.
\<close>

fun chain :: "'a node option \<Rightarrow> 'a node list" where
  "chain None = []"
| "chain (Some (Node v nx)) = Node v nx # chain nx"

text \<open>
  The matcher accepts the node at position \<open>i\<close> (it is called with the node, its
  position and the list); \<open>p\<close> is the first such position.
\<close>

definition matches_at :: "'a matcher \<Rightarrow> 'a LinkedList \<Rightarrow> nat \<Rightarrow> bool" where
  "matches_at isMatch this i =
     (i < length (chain (head this)) \<and> isMatch (chain (head this) ! i) i this)"

definition first_match :: "'a matcher \<Rightarrow> 'a LinkedList \<Rightarrow> nat \<Rightarrow> bool" where
  "first_match isMatch this p =
     (matches_at isMatch this p \<and> (\<forall>q<p. \<not> matches_at isMatch this q))"

text \<open>
  The words that occur in a sentence: its tokens, lower-cased, without the empty one.
\<close>

definition words_of :: "string \<Rightarrow> string set" where
  "words_of sentence =
     set (filter (\<lambda>word. word \<noteq> []) (map toLowerCase (split_sentence sentence)))"

section \<open>The linked list: traversal and update\<close>

lemma asArray_loop_chain: "asArray_loop n vs = vs @ map node_value (chain n)"
  by (induction n vs rule: asArray_loop.induct) simp_all

lemma asArray_chain: "asArray this = map node_value (chain (head this))"
  by (simp add: asArray_def asArray_loop_chain)

lemma length_loop_chain: "length_loop n r = r + length (chain n)"
  by (induction n r rule: length_loop.induct) simp_all

lemma length_ll_chain: "length_ll this = length (chain (head this))"
  by (simp add: length_ll_def length_loop_chain)

lemma asArray_insertAtHead: "asArray (insertAtHead v this) = v # asArray this"
  by (simp add: asArray_chain insertAtHead_def)

lemma asArray_fold_insertAtHead: "asArray (fold insertAtHead xs this) = rev xs @ asArray this"
  by (induction xs arbitrary: this) (simp_all add: asArray_insertAtHead)

lemma chain_empty_iff: "chain n = [] \<longleftrightarrow> n = None"
  by (cases n rule: chain.cases) simp_all

lemma find_loop_none:
  "(\<forall>i<length (chain n). \<not> isMatch (chain n ! i) (k + i) this) \<Longrightarrow>
   findWithPrevious_loop isMatch this k prev n = (None, None)"
proof (induction isMatch this k prev n rule: findWithPrevious_loop.induct)
  case (1 isMatch this index previous)
  show ?case by simp
next
  case (2 isMatch this index previous v nx)
  from "2.prems" have here: "\<not> isMatch (Node v nx) index this"
    by force
  have rest: "\<forall>i<length (chain nx). \<not> isMatch (chain nx ! i) (index + 1 + i) this"
  proof (intro allI impI)
    fix i assume "i < length (chain nx)"
    with "2.prems" have "\<not> isMatch (chain (Some (Node v nx)) ! Suc i) (index + Suc i) this"
      by (metis Suc_less_eq chain.simps(2) length_Cons)
    then show "\<not> isMatch (chain nx ! i) (index + 1 + i) this" by simp
  qed
  from "2.IH" [OF here rest] here show ?case by simp
qed

lemma find_loop_first:
  "p < length (chain n) \<Longrightarrow> isMatch (chain n ! p) (k + p) this \<Longrightarrow>
   (\<forall>q<p. \<not> isMatch (chain n ! q) (k + q) this) \<Longrightarrow>
   findWithPrevious_loop isMatch this k prev n =
     (Some (k + p, chain n ! p),
      if p = 0 then prev else Some (k + p - 1, chain n ! (p - 1)))"
proof (induction p arbitrary: n k prev)
  case 0
  then obtain v nx where n: "n = Some (Node v nx)"
    by (cases n rule: chain.cases) simp_all
  with 0 show ?case by simp
next
  case (Suc p)
  then obtain v nx where n: "n = Some (Node v nx)"
    by (cases n rule: chain.cases) simp_all
  from Suc.prems n have here: "\<not> isMatch (Node v nx) k this"
    by force
  from Suc.prems n have a: "p < length (chain nx)" and b: "isMatch (chain nx ! p) (k + 1 + p) this"
    by simp_all
  have c: "\<forall>q<p. \<not> isMatch (chain nx ! q) (k + 1 + q) this"
  proof (intro allI impI)
    fix q assume "q < p"
    then have "Suc q < Suc p" by simp
    with Suc.prems(3) have "\<not> isMatch (chain n ! Suc q) (k + Suc q) this" by blast
    with n show "\<not> isMatch (chain nx ! q) (k + 1 + q) this" by simp
  qed
  have "findWithPrevious_loop isMatch this (k + 1) (Some (k, Node v nx)) nx =
     (Some (k + 1 + p, chain nx ! p),
      if p = 0 then Some (k, Node v nx) else Some (k + 1 + p - 1, chain nx ! (p - 1)))"
    by (rule Suc.IH [OF a b c])
  with here n show ?case
    by (cases p) simp_all
qed

lemma exists_first_match:
  "matches_at isMatch this i \<Longrightarrow> \<exists>p. first_match isMatch this p"
  unfolding first_match_def
  by (metis (mono_tags, lifting) LeastI not_less_Least)

lemma findWithPrevious_none:
  "(\<forall>i. \<not> matches_at isMatch this i) \<Longrightarrow> findWithPrevious isMatch this = (None, None)"
  unfolding findWithPrevious_def matches_at_def
  by (rule find_loop_none) simp

lemma findWithPrevious_first:
  assumes "first_match isMatch this p"
  shows "findWithPrevious isMatch this =
     (Some (p, chain (head this) ! p),
      if p = 0 then None else Some (p - 1, chain (head this) ! (p - 1)))"
proof -
  from assms have a: "p < length (chain (head this))"
    and b: "isMatch (chain (head this) ! p) (0 + p) this"
    and c: "\<forall>q<p. \<not> isMatch (chain (head this) ! q) (0 + q) this"
    by (auto simp: first_match_def matches_at_def)
  from a b c
    find_loop_first [where p = p and n = "head this" and isMatch = isMatch and k = 0
      and this = this and prev = None]
  show ?thesis
    by (simp add: findWithPrevious_def)
qed

lemma values_set_next:
  "p < length (chain n) \<Longrightarrow>
   map node_value (chain (set_next p x n)) =
     take (Suc p) (map node_value (chain n)) @ map node_value (chain x)"
  by (induction p x n rule: set_next.induct) simp_all

lemma chain_node_next:
  "p < length (chain n) \<Longrightarrow> chain (node_next (chain n ! p)) = drop (Suc p) (chain n)"
proof (induction p arbitrary: n)
  case 0
  then show ?case by (cases n rule: chain.cases) simp_all
next
  case (Suc p)
  then show ?case by (cases n rule: chain.cases) simp_all
qed

lemma insert_ll_empty:
  "head this = None \<Longrightarrow> insert_ll v isMatch this = (None, insertAtHead v this)"
  by (simp add: insert_ll_def)

lemma insert_ll_no_match:
  assumes "head this \<noteq> None" and "\<forall>i. \<not> matches_at isMatch this i"
  shows "insert_ll v isMatch this = (Some (Error ''No match found.''), this)"
  using assms by (auto simp: insert_ll_def find_ll_def findWithPrevious_none)

lemma insert_ll_first:
  assumes "first_match isMatch this p"
  shows "fst (insert_ll v isMatch this) = None"
    and "asArray (snd (insert_ll v isMatch this)) =
           take (Suc p) (asArray this) @ v # drop (Suc p) (asArray this)"
proof -
  from assms have p: "p < length (chain (head this))"
    by (simp add: first_match_def matches_at_def)
  then obtain h where h: "head this = Some h"
    by (cases "head this") auto
  let ?prev = "chain (head this) ! p"
  have ins: "insert_ll v isMatch this =
    (None, this\<lparr>head := set_next p (Some (Node v (node_next ?prev))) (head this)\<rparr>)"
    using h by (simp add: insert_ll_def find_ll_def findWithPrevious_first [OF assms])
  show "fst (insert_ll v isMatch this) = None"
    by (simp add: ins)
  show "asArray (snd (insert_ll v isMatch this)) =
           take (Suc p) (asArray this) @ v # drop (Suc p) (asArray this)"
    using p by (simp add: ins asArray_chain values_set_next chain_node_next drop_map)
qed

lemma remove_ll_no_match:
  assumes "\<forall>i. \<not> matches_at isMatch this i"
  shows "remove_ll isMatch this = (Some TypeError, this)"
  using assms
  by (simp add: remove_ll_def findWithPrevious_none head_is_def split: option.splits)

lemma remove_ll_first:
  assumes "first_match isMatch this p"
  shows "fst (remove_ll isMatch this) = None"
    and "asArray (snd (remove_ll isMatch this)) = take p (asArray this) @ drop (Suc p) (asArray this)"
proof -
  from assms have p: "p < length (chain (head this))"
    by (simp add: first_match_def matches_at_def)
  then obtain v nx where h: "head this = Some (Node v nx)"
    by (cases "head this" rule: chain.cases) auto
  show "fst (remove_ll isMatch this) = None"
    by (cases p) (simp_all add: remove_ll_def findWithPrevious_first [OF assms] head_is_def h)
  show "asArray (snd (remove_ll isMatch this)) = take p (asArray this) @ drop (Suc p) (asArray this)"
  proof (cases p)
    case 0
    then show ?thesis
      by (simp add: remove_ll_def findWithPrevious_first [OF assms] head_is_def h asArray_chain)
  next
    case (Suc q)
    with p have q: "q < length (chain (head this))" by simp
    have "remove_ll isMatch this =
      (None, this\<lparr>head := set_next q (node_next (chain (head this) ! p)) (head this)\<rparr>)"
      using Suc by (simp add: remove_ll_def findWithPrevious_first [OF assms] head_is_def)
    then show ?thesis
      using p q Suc
      by (simp add: asArray_chain values_set_next chain_node_next drop_map)
  qed
qed

lemma asArray_new_LinkedList_Some: "asArray (fst (new_LinkedList (Some vs))) = vs"
proof -
  have "asArray (fold insertAtHead (rev vs) \<lparr>head = None\<rparr>) =
        rev (rev vs) @ asArray \<lparr>head = None\<rparr>"
    by (rule asArray_fold_insertAtHead)
  then show ?thesis
    by (simp add: new_LinkedList_def Let_def asArray_chain)
qed

text \<open>
  With the default matcher \<^verbatim>\<open>insert\<close> appends: on a list that is not empty the matcher
  accepts the last node and no other.
\<close>

lemma insert_ll_default:
  assumes "head this \<noteq> None"
  shows "fst (insert_ll v (insert_default_isMatch this) this) = None"
    and "asArray (snd (insert_ll v (insert_default_isMatch this) this)) = asArray this @ [v]"
proof -
  from assms have len: "0 < length (chain (head this))"
    by (simp add: chain_empty_iff)
  then have idx: "int (length (chain (head this)) - 1) = int (length (chain (head this))) - 1"
    by linarith
  have "matches_at (insert_default_isMatch this) this (length (chain (head this)) - 1)"
    using len idx by (simp add: matches_at_def insert_default_isMatch_def length_ll_chain)
  moreover have "\<not> matches_at (insert_default_isMatch this) this q"
    if "q < length (chain (head this)) - 1" for q
  proof -
    from that have "int q \<noteq> int (length (chain (head this))) - 1"
      by linarith
    then show ?thesis
      by (simp add: matches_at_def insert_default_isMatch_def length_ll_chain)
  qed
  ultimately
  have fm: "first_match (insert_default_isMatch this) this (length (chain (head this)) - 1)"
    by (simp add: first_match_def)
  show "fst (insert_ll v (insert_default_isMatch this) this) = None"
    by (rule insert_ll_first(1) [OF fm])
  from insert_ll_first(2) [OF fm, of v] len
  show "asArray (snd (insert_ll v (insert_default_isMatch this) this)) = asArray this @ [v]"
    by (simp add: asArray_chain)
qed

section \<open>The concordance: keys and index arrays\<close>

lemma set_spread_Set_fold:
  "set (fold (\<lambda>x seen. if x \<in> set seen then seen else seen @ [x]) xs acc) = set acc \<union> set xs"
  by (induction xs arbitrary: acc) auto

lemma set_spread_Set: "set (spread_Set xs) = set xs"
  by (simp add: spread_Set_def set_spread_Set_fold)

lemma dom_add_word:
  "dom (add_word index t m) =
     (if toLowerCase t \<noteq> [] then insert (toLowerCase t) (dom m) else dom m)"
  by (auto simp: add_word_def Let_def split: option.splits)

lemma ran_add_word: "[] \<notin> ran m \<Longrightarrow> [] \<notin> ran (add_word index t m)"
  by (auto simp: add_word_def Let_def ran_def split: option.splits if_splits)

lemma dom_fold_add_word:
  "dom (fold (add_word index) ts m) =
     dom m \<union> {toLowerCase t | t. t \<in> set ts \<and> toLowerCase t \<noteq> []}"
  by (induction ts arbitrary: m) (auto simp: dom_add_word)

lemma ran_fold_add_word:
  "[] \<notin> ran m \<Longrightarrow> [] \<notin> ran (fold (add_word index) ts m)"
  by (induction ts arbitrary: m) (simp_all add: ran_add_word)

lemma words_of_iff:
  "words_of sentence =
     {toLowerCase t | t. t \<in> set (split_sentence sentence) \<and> toLowerCase t \<noteq> []}"
  by (auto simp: words_of_def)

lemma dom_add_sentence:
  "dom (add_sentence (index, sentence) m) = dom m \<union> words_of sentence"
  by (simp add: add_sentence_def dom_fold_add_word set_spread_Set words_of_iff)

lemma ran_add_sentence: "[] \<notin> ran m \<Longrightarrow> [] \<notin> ran (add_sentence entry m)"
  by (cases entry) (simp add: add_sentence_def ran_fold_add_word)

lemma dom_fold_add_sentence:
  "dom (fold add_sentence entries m) = dom m \<union> (\<Union>e \<in> set entries. words_of (snd e))"
proof (induction entries arbitrary: m)
  case Nil
  show ?case by simp
next
  case (Cons e entries)
  obtain index sentence where e: "e = (index, sentence)"
    by (cases e)
  have "dom (fold add_sentence (e # entries) m) =
        dom (add_sentence e m) \<union> (\<Union>e \<in> set entries. words_of (snd e))"
    by (simp add: Cons.IH)
  also have "dom (add_sentence e m) = dom m \<union> words_of (snd e)"
    by (simp add: e dom_add_sentence)
  finally show ?case
    by (simp add: Un_assoc)
qed

lemma ran_fold_add_sentence:
  "[] \<notin> ran m \<Longrightarrow> [] \<notin> ran (fold add_sentence entries m)"
  by (induction entries arbitrary: m) (simp_all add: ran_add_sentence)

lemma snd_enumerate: "snd ` set (enumerate n xs) = set xs"
  by (metis list.set_map map_snd_enumerate)

section \<open>Searching: what the loop computes\<close>

lemma push_sentences_fixed:
  "set (map (data_at data) indices) \<subseteq> set result \<Longrightarrow> push_sentences indices data result = result"
  unfolding push_sentences_def
  by (induction indices arbitrary: result) (simp_all add: Let_def)

lemma push_sentences_fold_set:
  "set (fold (\<lambda>sentenceIndex result.
             (let sentence = data_at data sentenceIndex
              in if sentence \<in> set result then result else result @ [sentence])) indices result)
   = set result \<union> set (map (data_at data) indices)"
  by (induction indices arbitrary: result) (auto simp: Let_def)

lemma set_push_sentences:
  "set (push_sentences indices data result) = set result \<union> set (map (data_at data) indices)"
  unfolding push_sentences_def by (rule push_sentences_fold_set)

lemma searchLines_loop_fixed:
  "conc key = Some indices \<Longrightarrow> set (map (data_at data) indices) \<subseteq> set result \<Longrightarrow>
   searchLines_loop key conc data n result = result"
  by (induction key conc data n result rule: searchLines_loop.induct)
     (simp_all add: push_sentences_fixed)

lemma searchLines_head_key:
  "head words = Some (Node v nx) \<Longrightarrow>
   searchLines words conc data =
     (case conc (toLowerCase v) of
        None \<Rightarrow> []
      | Some indices \<Rightarrow> push_sentences indices data [])"
  by (auto simp: searchLines_def set_push_sentences searchLines_loop_fixed split: option.splits)

lemma asArray_loop_empty: "asArray_loop n vs = [] \<Longrightarrow> n = None"
  by (induction n vs rule: asArray_loop.induct) simp_all

section \<open>The claims\<close>

subsection \<open>Searching\<close>

text \<open>
  Claim C1: for each term of the query term list, front to back, the search lower-cases
  that term and looks it up in the concordance; with the sentences "the cat sat",
  "the dog ran", "cats and dogs" and their concordance, searching for "cat" and "the"
  returns "the cat sat" and "the dog ran".

  The code lower-cases the head term only and looks that key up once per node
  (\<open>searchLines_head_key\<close>): it returns "the cat sat" alone, "the" is never looked up.
\<close>

theorem searchLines_cat_the:
  "searchLines (fst (new_LinkedList (Some [''cat'', ''the''])))
     (concordance [''the cat sat'', ''the dog ran'', ''cats and dogs''])
     [''the cat sat'', ''the dog ran'', ''cats and dogs''] = [Some ''the cat sat'']"
  by code_simp

text \<open>
  Claim C2: if any term of the list, lower-cased, is not a key of the concordance, the
  search returns an empty result.

  In the code a term after the first is never looked up: with the sentences "cat sat" and
  "dog ran", searching for "cat" and "zzz" returns "cat sat", although "zzz" is no key.
\<close>

theorem searchLines_cat_zzz:
  "searchLines (fst (new_LinkedList (Some [''cat'', ''zzz''])))
     (concordance [''cat sat'', ''dog ran'']) [''cat sat'', ''dog ran''] = [Some ''cat sat''] \<and>
   concordance [''cat sat'', ''dog ran''] (toLowerCase ''zzz'') = None"
  by code_simp

text \<open>
  Claim C3: whenever the search returns a result that is not empty, every term of the
  list, lower-cased, is a key of the concordance.

  In the code the result for "Dog", "bird", "cat" over the sentences "cat sat" and
  "dog ran" is not empty, and "bird" is no key of the concordance.
\<close>

theorem searchLines_dog_bird_cat:
  "searchLines (fst (new_LinkedList (Some [''Dog'', ''bird'', ''cat''])))
     (concordance [''cat sat'', ''dog ran'']) [''cat sat'', ''dog ran''] = [Some ''dog ran''] \<and>
   concordance [''cat sat'', ''dog ran''] (toLowerCase ''bird'') = None"
  by code_simp

text \<open>
  Claim C6: for every concordance and every sentence sequence, the search over an empty
  query term list returns the empty result at once, with no lookup in the concordance
  (the result is the same whatever the concordance and the sentences are).
\<close>

theorem searchLines_empty:
  "asArray words = [] \<Longrightarrow> searchLines words conc data = []"
  by (auto simp: searchLines_def asArray_def dest: asArray_loop_empty)

theorem searchLines_empty_witness:
  "asArray (fst (new_LinkedList (Some ([] :: string list)))) = [] \<and>
   searchLines (fst (new_LinkedList (Some ([] :: string list))))
     (concordance [''cat sat'']) [''cat sat''] = []"
proof -
  have h: "asArray (fst (new_LinkedList (Some ([] :: string list)))) = []"
    by code_simp
  from h searchLines_empty [OF h] show ?thesis by simp
qed

subsection \<open>Building the concordance\<close>

text \<open>
  Claim C4: for every sentence sequence, the index array of every word of the concordance
  is strictly ascending, each sentence index occurring at most once per word.

  The code removes repeated tokens before it lower-cases them (line 260, then line 266),
  so two spellings of one word in one sentence both append the index. Sentence 26 of the
  program's own data gives the word "the" the index twice.
\<close>

theorem concordance_The_the:
  "concordance [''The family is the natural and fundamental group unit of society and is entitled to protection by society and the State.'']
     ''the'' = Some [0, 0]"
  by code_simp

text \<open>
  Claim C5: for every sentence sequence, a word is a key of the concordance if and only if
  it occurs in at least one sentence (as a token, lower-cased and not empty), and no key
  is mapped to an empty index array.
\<close>

theorem concordance_keys:
  "dom (concordance data) = (\<Union>sentence \<in> set data. words_of sentence) \<and>
   [] \<notin> ran (concordance data)"
proof
  have "(\<Union>e \<in> set (enumerate 0 data). words_of (snd e)) =
        (\<Union>s \<in> snd ` set (enumerate 0 data). words_of s)"
    by blast
  then show "dom (concordance data) = (\<Union>sentence \<in> set data. words_of sentence)"
    by (simp add: concordance_def dom_fold_add_sentence snd_enumerate del: UN_simps)
  show "[] \<notin> ran (concordance data)"
    unfolding concordance_def by (rule ran_fold_add_sentence) simp
qed

theorem concordance_keys_witness:
  "dom (concordance [''Free, free'', ''a;B'']) = {''free'', ''a'', ''b''} \<and>
   [] \<notin> ran (concordance [''Free, free'', ''a;B''])"
proof -
  have "(\<Union>sentence \<in> set [''Free, free'', ''a;B'']. words_of sentence) =
        {''free'', ''a'', ''b''}"
    by code_simp
  with concordance_keys [of "[''Free, free'', ''a;B'']"] show ?thesis
    by simp
qed

subsection \<open>The linked list\<close>

text \<open>
  Claim C7: \<^verbatim>\<open>insert\<close> fails, with the error 'No match found.', exactly when the list
  is not empty and no node satisfies the matcher, and then the list is left as it was; on
  an empty list the value is inserted at the head; otherwise the value is inserted after
  the first node that satisfies the matcher.
\<close>

theorem insert_ll_spec:
  "(fst (insert_ll v isMatch this) \<noteq> None \<longleftrightarrow>
      head this \<noteq> None \<and> (\<forall>i. \<not> matches_at isMatch this i)) \<and>
   (fst (insert_ll v isMatch this) \<noteq> None \<longrightarrow>
      insert_ll v isMatch this = (Some (Error ''No match found.''), this)) \<and>
   (head this = None \<longrightarrow>
      insert_ll v isMatch this = (None, insertAtHead v this) \<and>
      asArray (insertAtHead v this) = [v]) \<and>
   (\<forall>p. first_match isMatch this p \<longrightarrow>
      fst (insert_ll v isMatch this) = None \<and>
      asArray (snd (insert_ll v isMatch this)) =
        take (Suc p) (asArray this) @ v # drop (Suc p) (asArray this))"
proof -
  have fail: "fst (insert_ll v isMatch this) \<noteq> None \<longleftrightarrow>
      head this \<noteq> None \<and> (\<forall>i. \<not> matches_at isMatch this i)"
  proof (cases "head this = None")
    case True
    then show ?thesis by (simp add: insert_ll_empty)
  next
    case nonempty: False
    show ?thesis
    proof (cases "\<exists>i. matches_at isMatch this i")
      case True
      then obtain p where "first_match isMatch this p"
        using exists_first_match by blast
      with True insert_ll_first(1) [of isMatch this p v] show ?thesis by simp
    next
      case False
      with nonempty insert_ll_no_match [of this isMatch v] show ?thesis by simp
    qed
  qed
  have unchanged: "fst (insert_ll v isMatch this) \<noteq> None \<longrightarrow>
      insert_ll v isMatch this = (Some (Error ''No match found.''), this)"
    using fail insert_ll_no_match [of this isMatch v] by blast
  have empty: "head this = None \<longrightarrow>
      insert_ll v isMatch this = (None, insertAtHead v this) \<and>
      asArray (insertAtHead v this) = [v]"
    by (simp add: insert_ll_empty asArray_chain insertAtHead_def)
  from fail unchanged empty insert_ll_first [of isMatch this _ v] show ?thesis
    by blast
qed

theorem insert_ll_spec_witness:
  "first_match (\<lambda>n i l. node_value n = 2)
     \<lparr>head = Some (Node 1 (Some (Node 2 (Some (Node (3::nat) None)))))\<rparr> 1 \<and>
   asArray (snd (insert_ll 9 (\<lambda>n i l. node_value n = 2)
     \<lparr>head = Some (Node 1 (Some (Node 2 (Some (Node (3::nat) None)))))\<rparr>)) = [1, 2, 9, 3] \<and>
   insert_ll 9 (\<lambda>n i l. node_value n = 7)
     \<lparr>head = Some (Node 1 (Some (Node 2 (Some (Node (3::nat) None)))))\<rparr> =
     (Some (Error ''No match found.''),
      \<lparr>head = Some (Node 1 (Some (Node 2 (Some (Node (3::nat) None)))))\<rparr>) \<and>
   insert_ll (9::nat) (\<lambda>n i l. node_value n = 7) \<lparr>head = None\<rparr> =
     (None, \<lparr>head = Some (Node 9 None)\<rparr>)"
proof -
  let ?l = "\<lparr>head = Some (Node 1 (Some (Node 2 (Some (Node (3::nat) None)))))\<rparr>"
  let ?e = "\<lparr>head = None :: nat node option\<rparr>"
  have fm: "first_match (\<lambda>n i l. node_value n = 2) ?l 1"
    by (simp add: first_match_def matches_at_def)
  have nm: "\<forall>i. \<not> matches_at (\<lambda>n i l. node_value n = 7) ?l i"
    by (auto simp: matches_at_def nth_Cons')
  have ne: "head ?l \<noteq> None" by simp
  have em: "head ?e = None" by simp
  from fm insert_ll_spec [of 9 "\<lambda>n i l. node_value n = 2" ?l]
  have a: "asArray (snd (insert_ll 9 (\<lambda>n i l. node_value n = 2) ?l)) = [1, 2, 9, 3]"
    by (simp add: asArray_chain)
  from nm ne insert_ll_spec [of 9 "\<lambda>n i l. node_value n = 7" ?l]
  have b: "insert_ll 9 (\<lambda>n i l. node_value n = 7) ?l = (Some (Error ''No match found.''), ?l)"
    by blast
  from em insert_ll_spec [of 9 "\<lambda>n i l. node_value n = 7" ?e]
  have c: "insert_ll 9 (\<lambda>n i l. node_value n = 7) ?e = (None, \<lparr>head = Some (Node 9 None)\<rparr>)"
    by (simp add: insertAtHead_def)
  from fm a b c show ?thesis by blast
qed

text \<open>
  Claim C8: for every array of values, the list constructed from the array, converted
  back to an array, is the original sequence in the same order (as for "a", "b", "c").
\<close>

theorem asArray_new_LinkedList:
  "asArray (fst (new_LinkedList (Some vs))) = vs"
  by (rule asArray_new_LinkedList_Some)

text \<open>
  Claim C9: \<^verbatim>\<open>remove\<close> is safe only when some node satisfies the matcher: if none
  does (the empty list included) it throws a TypeError, where it could have returned the
  list unchanged; the list is as it was when the error is thrown.
\<close>

theorem remove_ll_spec:
  "(fst (remove_ll isMatch this) = Some TypeError \<longleftrightarrow> (\<forall>i. \<not> matches_at isMatch this i)) \<and>
   ((\<forall>i. \<not> matches_at isMatch this i) \<longrightarrow> remove_ll isMatch this = (Some TypeError, this))"
proof -
  have "fst (remove_ll isMatch this) = None" if "matches_at isMatch this i" for i
    using that exists_first_match [of isMatch this i] remove_ll_first(1) [of isMatch this]
    by blast
  then show ?thesis
    using remove_ll_no_match [of isMatch this] by force
qed

theorem remove_ll_spec_witness:
  "(\<forall>i. \<not> matches_at (\<lambda>n i l. node_value n = 7)
       \<lparr>head = Some (Node 1 (Some (Node 2 (Some (Node (3::nat) None)))))\<rparr> i) \<and>
   remove_ll (\<lambda>n i l. node_value n = 7)
     \<lparr>head = Some (Node 1 (Some (Node 2 (Some (Node (3::nat) None)))))\<rparr> =
     (Some TypeError, \<lparr>head = Some (Node 1 (Some (Node 2 (Some (Node (3::nat) None)))))\<rparr>) \<and>
   remove_ll (\<lambda>n i l. node_value n = (7::nat)) \<lparr>head = None\<rparr> =
     (Some TypeError, \<lparr>head = None\<rparr>)"
proof -
  let ?l = "\<lparr>head = Some (Node 1 (Some (Node 2 (Some (Node (3::nat) None)))))\<rparr>"
  let ?e = "\<lparr>head = None :: nat node option\<rparr>"
  have nm: "\<forall>i. \<not> matches_at (\<lambda>n i l. node_value n = 7) ?l i"
    by (auto simp: matches_at_def nth_Cons')
  have em: "\<forall>i. \<not> matches_at (\<lambda>n i l. node_value n = 7) ?e i"
    by (simp add: matches_at_def)
  from nm remove_ll_spec [of "\<lambda>n i l. node_value n = 7" ?l]
  have a: "remove_ll (\<lambda>n i l. node_value n = 7) ?l = (Some TypeError, ?l)"
    by blast
  from em remove_ll_spec [of "\<lambda>n i l. node_value n = 7" ?e]
  have b: "remove_ll (\<lambda>n i l. node_value n = 7) ?e = (Some TypeError, ?e)"
    by blast
  from nm a b show ?thesis by blast
qed

text \<open>
  Claim C10: constructing a list from an array reverses the caller's array in place:
  after the construction the argument holds its elements in reverse order, and the list,
  front to back, holds them in the original order.
\<close>

theorem new_LinkedList_reverses_argument:
  "snd (new_LinkedList (Some vs)) = Some (rev vs) \<and>
   asArray (fst (new_LinkedList (Some vs))) = vs"
  using asArray_new_LinkedList_Some [of vs] by (simp add: new_LinkedList_def Let_def)

end
